theory Spec2Isabelle
  imports Complex_Main
begin

section \<open>Errors\<close>

text \<open>
  Every exception the modelled code can raise is a value. A call that raises returns
  \<open>Inl e\<close>; the Python exception aborts the call, so nothing is returned beside it
  (the pianoroll conversion, whose effect on the caller's objects matters, returns the
  store in both cases).
\<close>

datatype error = InvalidInput | DecodeError | ValueError | IndexError | ResampleError

section \<open>The tokenizer\<close>

text \<open>
  \<^verbatim>\<open>from .tokenizer import Tokenizer\<close>: the parser owns a tokenizer whose code is not
  part of \<^verbatim>\<open>MIDOParser.py\<close>. Python integers are \<^typ>\<open>int\<close>; a byte is an integer
  in 0..255 and a token is the list of bytes of one framed message.
\<close>

type_synonym token = "int list"

text \<open>
  Modelled from the spec: the state of the Tokenizer (section 3 and 9 of the
  specification: the last channel-voice status byte, the currently open message, the
  sysex buffer in progress, and the list of ready tokens).
\<close>

record tokenizer =
  running_status :: "int option"
  in_progress :: "(int \<times> int list) option"
  sysex_buf :: "int list option"
  ready :: "token list"

text \<open>
  Modelled from the spec: a Tokenizer at construction (empty, no running status).
\<close>

definition Tokenizer :: tokenizer where
  "Tokenizer = \<lparr>running_status = None, in_progress = None, sysex_buf = None, ready = []\<rparr>"

text \<open>
  Modelled from the spec: the number of data bytes a status byte announces. The
  specification gives no table ("each with a fixed known data-byte count"), so the table
  \<open>data_len\<close> is a parameter; it fixes only that 0xF6 has no data and that a status
  byte without an entry takes zero data bytes.
\<close>

definition expected_len :: "(int \<rightharpoonup> nat) \<Rightarrow> int \<Rightarrow> nat" where
  "expected_len data_len status =
     (if status = 0xF6 then 0
      else case data_len status of None \<Rightarrow> 0 | Some n \<Rightarrow> n)"

text \<open>
  Modelled from the spec: the framing algorithm of section 4.1, one byte at a time, in
  the order of its five cases. Running status is cleared by a system message
  (section 3) and set by a channel-voice status byte.
\<close>

definition process_byte :: "(int \<rightharpoonup> nat) \<Rightarrow> tokenizer \<Rightarrow> int \<Rightarrow> tokenizer" where
  "process_byte data_len t b =
     (if 0xF8 \<le> b then t\<lparr>ready := ready t @ [[b]]\<rparr>
      else if b = 0xF0 then
        t\<lparr>running_status := None, in_progress := None, sysex_buf := Some [b]\<rparr>
      else case sysex_buf t of
        Some buf \<Rightarrow>
          (if b = 0xF7 then t\<lparr>sysex_buf := None, ready := ready t @ [buf @ [b]]\<rparr>
           else t\<lparr>sysex_buf := Some (buf @ [b])\<rparr>)
      | None \<Rightarrow>
          if 0x80 \<le> b then
            (let rs = (if b < 0xF0 then Some b else None) in
             if expected_len data_len b = 0
             then t\<lparr>running_status := rs, in_progress := None, ready := ready t @ [[b]]\<rparr>
             else t\<lparr>running_status := rs, in_progress := Some (b, [])\<rparr>)
          else
            (case (case in_progress t of
                     Some m \<Rightarrow> Some m
                   | None \<Rightarrow> map_option (\<lambda>s. (s, [])) (running_status t)) of
               None \<Rightarrow> t
             | Some (s, acc) \<Rightarrow>
                 (let acc' = acc @ [b] in
                  if expected_len data_len s \<le> length acc'
                  then t\<lparr>in_progress := None, ready := ready t @ [s # acc']\<rparr>
                  else t\<lparr>in_progress := Some (s, acc')\<rparr>)))"

definition valid_byte :: "int \<Rightarrow> bool" where
  "valid_byte b = (0 \<le> b \<and> b \<le> 255)"

text \<open>
  Modelled from the spec: \<^verbatim>\<open>Tokenizer.feed\<close> processes the bytes strictly in order and
  fails with InvalidInput on a value outside 0..255; \<^verbatim>\<open>Tokenizer.feed_byte\<close> is
  \<^verbatim>\<open>feed([byte])\<close>. The specification leaves open how much of a rejected buffer is
  processed before the failure; the failing call returns the error alone, so the model
  does not choose.
\<close>

definition tok_feed :: "(int \<rightharpoonup> nat) \<Rightarrow> tokenizer \<Rightarrow> int list \<Rightarrow> error + tokenizer" where
  "tok_feed data_len t data =
     (if list_all valid_byte data then Inr (foldl (process_byte data_len) t data)
      else Inl InvalidInput)"

definition tok_feed_byte :: "(int \<rightharpoonup> nat) \<Rightarrow> tokenizer \<Rightarrow> int \<Rightarrow> error + tokenizer" where
  "tok_feed_byte data_len t byte = tok_feed data_len t [byte]"

text \<open>
  Modelled from the spec: one step of iterating the Tokenizer. The next ready token is
  removed from the ready list and yielded; \<open>None\<close> is the end of the iteration.
\<close>

definition tok_next :: "tokenizer \<Rightarrow> (token \<times> tokenizer) option" where
  "tok_next t = (case ready t of [] \<Rightarrow> None | x # xs \<Rightarrow> Some (x, t\<lparr>ready := xs\<rparr>))"

section \<open>The parser\<close>

text \<open>
  \<^verbatim>\<open>class Parser\<close>: the deque \<^verbatim>\<open>self.messages\<close> and the tokenizer \<^verbatim>\<open>self._tok\<close>. The
  class \<^verbatim>\<open>Message\<close> is not part of the file: a message is a value of the type
  parameter \<open>'m\<close>, and \<^verbatim>\<open>Message.from_bytes\<close> is the parameter \<open>from_bytes\<close>, with
  \<open>None\<close> where it raises.
\<close>

record 'm parser =
  messages :: "'m list"
  tok :: tokenizer

text \<open>
  \<^verbatim>\<open>_decode\<close>: the loop \<^verbatim>\<open>for midi_bytes in self._tok\<close> takes the tokens one by one
  from the tokenizer and appends each decoded message on the right of the deque.
\<close>

function decode :: "(token \<Rightarrow> 'm option) \<Rightarrow> 'm parser \<Rightarrow> error + 'm parser" where
  "decode from_bytes p =
     (case tok_next (tok p) of
        None \<Rightarrow> Inr p
      | Some (midi_bytes, t') \<Rightarrow>
          (case from_bytes midi_bytes of
             None \<Rightarrow> Inl DecodeError
           | Some m \<Rightarrow> decode from_bytes \<lparr>messages = messages p @ [m], tok = t'\<rparr>))"
  by pat_completeness auto
termination
  by (relation "measure (\<lambda>(from_bytes, p). length (ready (tok p)))")
     (auto simp: tok_next_def split: list.splits)

definition feed ::
  "(token \<Rightarrow> 'm option) \<Rightarrow> (int \<rightharpoonup> nat) \<Rightarrow> 'm parser \<Rightarrow> int list \<Rightarrow> error + 'm parser" where
  "feed from_bytes data_len p data =
     (case tok_feed data_len (tok p) data of
        Inl e \<Rightarrow> Inl e
      | Inr t' \<Rightarrow> decode from_bytes (p\<lparr>tok := t'\<rparr>))"

definition feed_byte ::
  "(token \<Rightarrow> 'm option) \<Rightarrow> (int \<rightharpoonup> nat) \<Rightarrow> 'm parser \<Rightarrow> int \<Rightarrow> error + 'm parser" where
  "feed_byte from_bytes data_len p byte =
     (case tok_feed_byte data_len (tok p) byte of
        Inl e \<Rightarrow> Inl e
      | Inr t' \<Rightarrow> decode from_bytes (p\<lparr>tok := t'\<rparr>))"

text \<open>
  \<^verbatim>\<open>__init__(self, data=None)\<close>: \<^verbatim>\<open>if data: self.feed(data)\<close> feeds a non-empty
  buffer only; \<open>None\<close> is the default argument.
\<close>

definition Parser ::
  "(token \<Rightarrow> 'm option) \<Rightarrow> (int \<rightharpoonup> nat) \<Rightarrow> int list option \<Rightarrow> error + 'm parser" where
  "Parser from_bytes data_len data =
     (let self = \<lparr>messages = [], tok = Tokenizer\<rparr> in
      case data of
        None \<Rightarrow> Inr self
      | Some d \<Rightarrow> if d \<noteq> [] then feed from_bytes data_len self d else Inr self)"

text \<open>
  \<^verbatim>\<open>__iter__\<close> is a generator: \<open>iter_next\<close> is one step of it (\<^verbatim>\<open>popleft\<close> and
  yield, or the end of the iteration when the deque is empty), \<open>iter_all\<close> runs it to
  its end, as \<^verbatim>\<open>list(...)\<close> does.
\<close>

definition iter_next :: "'m parser \<Rightarrow> ('m \<times> 'm parser) option" where
  "iter_next p =
     (if length (messages p) > 0
      then Some (hd (messages p), p\<lparr>messages := tl (messages p)\<rparr>)
      else None)"

function iter_all :: "'m parser \<Rightarrow> 'm list \<times> 'm parser" where
  "iter_all p =
     (case iter_next p of
        None \<Rightarrow> ([], p)
      | Some (msg, p') \<Rightarrow> (let (ms, p'') = iter_all p' in (msg # ms, p'')))"
  by pat_completeness auto
termination
  by (relation "measure (\<lambda>p. length (messages p))")
     (auto simp: iter_next_def split: if_splits)

text \<open>
  \<^verbatim>\<open>get_message\<close>: the \<^verbatim>\<open>for\<close> loop returns at the first message the generator
  yields; its \<^verbatim>\<open>else\<close> branch returns \<^verbatim>\<open>None\<close> when the generator yields nothing.
\<close>

definition get_message :: "'m parser \<Rightarrow> 'm option \<times> 'm parser" where
  "get_message p =
     (case iter_next p of
        Some (msg, p') \<Rightarrow> (Some msg, p')
      | None \<Rightarrow> (None, p))"

definition pending :: "'m parser \<Rightarrow> nat \<times> 'm parser" where
  "pending p = (length (messages p), p)"

definition parse_all ::
  "(token \<Rightarrow> 'm option) \<Rightarrow> (int \<rightharpoonup> nat) \<Rightarrow> int list \<Rightarrow> error + 'm list" where
  "parse_all from_bytes data_len data =
     (case Parser from_bytes data_len (Some data) of
        Inl e \<Rightarrow> Inl e
      | Inr p \<Rightarrow> Inr (fst (iter_all p)))"

definition parse ::
  "(token \<Rightarrow> 'm option) \<Rightarrow> (int \<rightharpoonup> nat) \<Rightarrow> int list \<Rightarrow> error + 'm option" where
  "parse from_bytes data_len data =
     (case Parser from_bytes data_len (Some data) of
        Inl e \<Rightarrow> Inl e
      | Inr p \<Rightarrow> Inr (fst (get_message p)))"

text \<open>
  The caller's loop of the byte-at-a-time property: \<^verbatim>\<open>for byte in bytes:
  parser.feed_byte(byte)\<close>, which a raised exception leaves.
\<close>

fun feed_bytes ::
  "(token \<Rightarrow> 'm option) \<Rightarrow> (int \<rightharpoonup> nat) \<Rightarrow> 'm parser \<Rightarrow> int list \<Rightarrow> error + 'm parser" where
  "feed_bytes from_bytes data_len p [] = Inr p"
| "feed_bytes from_bytes data_len p (byte # bytes) =
     (case feed_byte from_bytes data_len p byte of
        Inl e \<Rightarrow> Inl e
      | Inr p' \<Rightarrow> feed_bytes from_bytes data_len p' bytes)"

text \<open>
  The caller's loop of "repeated pop": \<^verbatim>\<open>get_message\<close> is called until it returns
  \<^verbatim>\<open>None\<close>, and the messages it returned are collected in order.
\<close>

function pop_all :: "'m parser \<Rightarrow> 'm list \<times> 'm parser" where
  "pop_all p =
     (case get_message p of
        (None, p') \<Rightarrow> ([], p')
      | (Some msg, p') \<Rightarrow> (let (ms, p'') = pop_all p' in (msg # ms, p'')))"
  by pat_completeness auto
termination
  by (relation "measure (\<lambda>p. length (messages p))")
     (auto simp: get_message_def iter_next_def split: if_splits)

section \<open>Notes and pianorolls\<close>

text \<open>
  \<^verbatim>\<open>miditoolkit.midi.containers.Note\<close>: an object with the attributes \<^verbatim>\<open>start\<close>,
  \<^verbatim>\<open>end\<close>, \<^verbatim>\<open>pitch\<close> and \<^verbatim>\<open>velocity\<close>.
\<close>

record Note =
  start :: int
  end_tick :: int
  pitch :: int
  velocity :: int

text \<open>
  Notes are mutable objects and \<^verbatim>\<open>notes2pianoroll\<close> assigns to their attributes, so
  the objects live in a store: the list of all allocated notes, a reference being the
  index of its object. Allocation appends to the store. A note stream is a list of
  references; one object may occur in it several times. Python has no dangling
  reference: every reference of a stream is below the length of the store.
\<close>

type_synonym heap = "Note list"

text \<open>
  \<^verbatim>\<open>deepcopy(note_stream_ori)\<close>: a new list of new objects. The memo of \<^verbatim>\<open>deepcopy\<close>
  maps every object already copied to its copy, so an object that occurs twice in the
  stream is copied once and its copy occurs twice.
\<close>

fun deepcopy_refs :: "(nat \<times> nat) list \<Rightarrow> heap \<Rightarrow> nat list \<Rightarrow> heap \<times> nat list" where
  "deepcopy_refs memo h [] = (h, [])"
| "deepcopy_refs memo h (r # rs) =
     (case map_of memo r of
        Some r' \<Rightarrow> (let (h', rs') = deepcopy_refs memo h rs in (h', r' # rs'))
      | None \<Rightarrow>
          (let r' = length h;
               (h', rs') = deepcopy_refs ((r, r') # memo) (h @ [h ! r]) rs
           in (h', r' # rs')))"

definition deepcopy :: "heap \<Rightarrow> nat list \<Rightarrow> heap \<times> nat list" where
  "deepcopy h rs = deepcopy_refs [] h rs"

text \<open>
  The resampling loop. \<open>f x\<close> stands for
  \<^verbatim>\<open>int(resample_method(x * resample_factor))\<close>, a floating-point computation through a
  callable of the caller's: it is a parameter, \<open>None\<close> where the computation raises.
\<close>

fun resample_notes :: "(int \<Rightarrow> int option) \<Rightarrow> heap \<Rightarrow> nat list \<Rightarrow> heap \<times> error option" where
  "resample_notes f h [] = (h, None)"
| "resample_notes f h (r # rs) =
     (case f (start (h ! r)) of
        None \<Rightarrow> (h, Some ResampleError)
      | Some s \<Rightarrow>
          (let h1 = h[r := (h ! r)\<lparr>start := s\<rparr>] in
           case f (end_tick (h1 ! r)) of
             None \<Rightarrow> (h1, Some ResampleError)
           | Some e \<Rightarrow> resample_notes f (h1[r := (h1 ! r)\<lparr>end_tick := e\<rparr>]) rs))"

text \<open>
  The entries of the matrix: a velocity, or a truth value under \<^verbatim>\<open>binary_thres\<close>.
  The three lists \<^verbatim>\<open>time_coo\<close>, \<^verbatim>\<open>pitch_coo\<close> and \<^verbatim>\<open>velocity\<close> grow together.
\<close>

datatype val = IntVal int | BoolVal bool

record coo =
  time_coo :: "int list"
  pitch_coo :: "int list"
  velocity_coo :: "val list"

text \<open>
  The body of the loop \<^verbatim>\<open>for note in note_stream\<close> that fills the coordinate lists,
  for the note at reference \<open>r\<close>; \<^verbatim>\<open>continue\<close> leaves the store and the lists as they
  are. \<^verbatim>\<open>np.arange(note.start, note.end)\<close> is \<open>[start .. end - 1]\<close>, empty when the end
  is not after the start, and \<^verbatim>\<open>[x] * duration\<close> is empty for a negative duration. The
  threshold is an integer: on integer velocities \<^verbatim>\<open>v > t\<close> for a real \<open>t\<close> is
  \<^verbatim>\<open>v > floor(t)\<close>.
\<close>

definition fill_note :: "bool \<Rightarrow> int option \<Rightarrow> heap \<Rightarrow> nat \<Rightarrow> coo \<Rightarrow> heap \<times> coo" where
  "fill_note keep_note binary_thres h r c =
     (if velocity (h ! r) = 0 then (h, c)
      else
        (let duration = end_tick (h ! r) - start (h ! r);
             extend = (keep_note \<and> duration = 0);
             duration = (if extend then 1 else duration);
             h = (if extend then h[r := (h ! r)\<lparr>end_tick := end_tick (h ! r) + 1\<rparr>] else h);
             v_tmp = (case binary_thres of
                        None \<Rightarrow> IntVal (velocity (h ! r))
                      | Some thres \<Rightarrow> BoolVal (velocity (h ! r) > thres))
         in (h, \<lparr>time_coo = time_coo c @ [start (h ! r) .. end_tick (h ! r) - 1],
                 pitch_coo = pitch_coo c @ replicate (nat duration) (pitch (h ! r)),
                 velocity_coo = velocity_coo c @ replicate (nat duration) v_tmp\<rparr>)))"

fun fill_coo :: "bool \<Rightarrow> int option \<Rightarrow> heap \<Rightarrow> nat list \<Rightarrow> coo \<Rightarrow> heap \<times> coo" where
  "fill_coo keep_note binary_thres h [] c = (h, c)"
| "fill_coo keep_note binary_thres h (r # rs) c =
     (let (h, c) = fill_note keep_note binary_thres h r c
      in fill_coo keep_note binary_thres h rs c)"

definition PITCH_RANGE :: int where
  "PITCH_RANGE = 128"

text \<open>
  \<^verbatim>\<open>csc_matrix((velocity, (time_coo, pitch_coo)), shape=...)\<close>: the constructor of
  scipy refuses a negative dimension and an index outside the shape with a ValueError.
  The matrix is its shape and its entries; entries at the same cell add up when the
  matrix is read (\<open>True + True\<close> is \<open>True\<close> in a matrix of truth values).
\<close>

record csc =
  shape :: "int \<times> int"
  entries :: coo

definition csc_matrix :: "coo \<Rightarrow> int \<times> int \<Rightarrow> error + csc" where
  "csc_matrix c shp =
     (if fst shp < 0 \<or> snd shp < 0
         \<or> \<not> list_all (\<lambda>t. 0 \<le> t \<and> t < fst shp) (time_coo c)
         \<or> \<not> list_all (\<lambda>p. 0 \<le> p \<and> p < snd shp) (pitch_coo c)
      then Inl ValueError
      else Inr \<lparr>shape = shp, entries = c\<rparr>)"

fun val_add :: "val \<Rightarrow> val \<Rightarrow> val" where
  "val_add (IntVal a) (IntVal b) = IntVal (a + b)"
| "val_add (BoolVal a) (BoolVal b) = BoolVal (a \<or> b)"
| "val_add (IntVal a) (BoolVal b) = IntVal (a + of_bool b)"
| "val_add (BoolVal a) (IntVal b) = IntVal (of_bool a + b)"

text \<open>
  \<^verbatim>\<open>toarray()\<close>: the dense matrix, row by row; a cell with no entry holds the zero of
  the entries' kind.
\<close>

definition cell_of :: "val \<Rightarrow> csc \<Rightarrow> int \<Rightarrow> int \<Rightarrow> val" where
  "cell_of zero m t p =
     foldl val_add zero
       (map snd (filter (\<lambda>(tp, v). tp = (t, p))
          (zip (zip (time_coo (entries m)) (pitch_coo (entries m)))
               (velocity_coo (entries m)))))"

definition toarray :: "val \<Rightarrow> csc \<Rightarrow> val list list" where
  "toarray zero m =
     map (\<lambda>t. map (\<lambda>p. cell_of zero m t p) [0 .. snd (shape m) - 1])
       [0 .. fst (shape m) - 1]"

datatype pianoroll = Sparse csc | Dense "val list list"

text \<open>
  The first half of \<^verbatim>\<open>notes2pianoroll\<close>: the copy, the sort by end time (\<^verbatim>\<open>sorted\<close> is
  stable, as \<open>sort_key\<close> is), \<^verbatim>\<open>max_tick\<close> and the resampling. \<open>resample\<close> is
  \<open>None\<close> when \<^verbatim>\<open>resample_factor\<close> is 1.0.
\<close>

definition prepare ::
  "heap \<Rightarrow> nat list \<Rightarrow> (int \<Rightarrow> int option) option \<Rightarrow> int option
     \<Rightarrow> heap \<times> (error + nat list \<times> int)" where
  "prepare h note_stream_ori resample max_tick =
     (let (h, note_stream) = deepcopy h note_stream_ori;
          note_stream = sort_key (\<lambda>r. end_tick (h ! r)) note_stream;
          max_tick = (case max_tick of
                        None \<Rightarrow>
                          if length note_stream = 0 then 0
                          else end_tick (h ! last note_stream)
                      | Some m \<Rightarrow> m)
      in case resample of
           None \<Rightarrow> (h, Inr (note_stream, max_tick))
         | Some f \<Rightarrow>
             (case f max_tick of
                None \<Rightarrow> (h, Inl ResampleError)
              | Some max_tick \<Rightarrow>
                  (case resample_notes f h note_stream of
                     (h, Some e) \<Rightarrow> (h, Inl e)
                   | (h, None) \<Rightarrow> (h, Inr (note_stream, max_tick)))))"

text \<open>
  The second half: the matrix from the coordinate lists, sparse or dense.
\<close>

definition to_pianoroll :: "int option \<Rightarrow> bool \<Rightarrow> coo \<Rightarrow> int \<Rightarrow> error + pianoroll" where
  "to_pianoroll binary_thres to_sparse c max_tick =
     (case csc_matrix c (max_tick, PITCH_RANGE) of
        Inl e \<Rightarrow> Inl e
      | Inr m \<Rightarrow>
          Inr (if to_sparse then Sparse m
               else Dense (toarray (if binary_thres = None then IntVal 0 else BoolVal False) m)))"

text \<open>
  \<^verbatim>\<open>notes2pianoroll\<close>. It takes the store and returns it, with the pianoroll or the
  exception raised. The arguments \<^verbatim>\<open>ticks_per_beat\<close> and \<^verbatim>\<open>downbeat\<close> are never read.
\<close>

definition notes2pianoroll ::
  "heap \<Rightarrow> nat list \<Rightarrow> (int \<Rightarrow> int option) option \<Rightarrow> int option \<Rightarrow> int option
     \<Rightarrow> bool \<Rightarrow> bool \<Rightarrow> heap \<times> (error + pianoroll)" where
  "notes2pianoroll h note_stream_ori resample binary_thres max_tick to_sparse keep_note =
     (case prepare h note_stream_ori resample max_tick of
        (h, Inl e) \<Rightarrow> (h, Inl e)
      | (h, Inr (note_stream, max_tick)) \<Rightarrow>
          (let (h, c) = fill_coo keep_note binary_thres h note_stream
                          \<lparr>time_coo = [], pitch_coo = [], velocity_coo = []\<rparr>
           in (h, to_pianoroll binary_thres to_sparse c max_tick)))"

text \<open>
  The argument of \<^verbatim>\<open>pianoroll2notes\<close>: a two-dimensional array, its rows the time
  steps and its columns the pitches. The cells are rational numbers (the finite values
  of a numeric array); only cells inside the shape are read.
\<close>

record 'a ndarray =
  nrows :: nat
  ncols :: nat
  cell :: "nat \<Rightarrow> nat \<Rightarrow> 'a"

text \<open>
  \<^verbatim>\<open>binarized = pianoroll > 0\<close>; \<^verbatim>\<open>padded\<close> has one row of \<open>False\<close> before and one
  after; \<^verbatim>\<open>diff\<close> is the difference of consecutive rows of \<^verbatim>\<open>padded\<close> as integers
  (in -1..1, so the 8-bit type never wraps) and has one row more than the pianoroll.
\<close>

definition binarized :: "rat ndarray \<Rightarrow> nat \<Rightarrow> nat \<Rightarrow> bool" where
  "binarized pianoroll t p = (cell pianoroll t p > 0)"

definition padded :: "rat ndarray \<Rightarrow> nat \<Rightarrow> nat \<Rightarrow> bool" where
  "padded pianoroll t p =
     (if t = 0 \<or> t = nrows pianoroll + 1 then False else binarized pianoroll (t - 1) p)"

definition diff :: "rat ndarray \<Rightarrow> nat \<Rightarrow> nat \<Rightarrow> int" where
  "diff pianoroll t p = of_bool (padded pianoroll (t + 1) p) - of_bool (padded pianoroll t p)"

text \<open>
  \<^verbatim>\<open>np.nonzero(m.T)\<close>: the index pairs (column, row) of the true cells of \<open>m\<close>, in the
  row-major order of the transposed array: by column, then by row.
\<close>

definition nonzero_T :: "(nat \<Rightarrow> nat \<Rightarrow> bool) \<Rightarrow> nat \<Rightarrow> nat \<Rightarrow> (nat \<times> nat) list" where
  "nonzero_T m rows cols =
     concat (map (\<lambda>p. map (\<lambda>t. (p, t)) (filter (\<lambda>t. m t p) [0..<rows])) [0..<cols])"

text \<open>
  \<^verbatim>\<open>int(x)\<close> of a number truncates towards zero.
\<close>

definition py_int :: "rat \<Rightarrow> int" where
  "py_int q = (if 0 \<le> q then \<lfloor>q\<rfloor> else \<lceil>q\<rceil>)"

text \<open>
  The loop \<^verbatim>\<open>for idx, pitch in enumerate(pitches)\<close>. An index outside an array raises
  IndexError. \<open>rescale x\<close> stands for \<^verbatim>\<open>int(x * resample_factor)\<close>, a floating-point
  product: it is a parameter, \<open>None\<close> where the conversion raises. The arguments of
  \<^verbatim>\<open>ct.Note\<close> are evaluated in the order they are written.
\<close>

fun notes_loop ::
  "rat ndarray \<Rightarrow> (nat \<Rightarrow> int option) \<Rightarrow> nat list \<Rightarrow> nat list \<Rightarrow> (nat \<times> nat) list
     \<Rightarrow> Note list \<Rightarrow> error + Note list" where
  "notes_loop pianoroll rescale note_ons note_offs [] notes = Inr notes"
| "notes_loop pianoroll rescale note_ons note_offs ((idx, pit) # rest) notes =
     (if length note_ons \<le> idx \<or> length note_offs \<le> idx then Inl IndexError
      else
        (let st = note_ons ! idx;
             ed = note_offs ! idx
         in if nrows pianoroll \<le> st \<or> ncols pianoroll \<le> pit then Inl IndexError
            else
              (let vel = cell pianoroll st pit;
                   vel = max 0 (min 127 vel)
               in case rescale st of
                    None \<Rightarrow> Inl ResampleError
                  | Some s \<Rightarrow>
                      (case rescale ed of
                         None \<Rightarrow> Inl ResampleError
                       | Some e \<Rightarrow>
                           notes_loop pianoroll rescale note_ons note_offs rest
                             (notes @ [\<lparr>start = s, end_tick = e, pitch = int pit,
                                        velocity = py_int vel\<rparr>])))))"

text \<open>
  \<^verbatim>\<open>pianoroll2notes\<close>; \<^verbatim>\<open>notes.sort(key=...)\<close> is stable, as \<open>sort_key\<close> is.
\<close>

definition pianoroll2notes :: "rat ndarray \<Rightarrow> (nat \<Rightarrow> int option) \<Rightarrow> error + Note list" where
  "pianoroll2notes pianoroll rescale =
     (let positives =
            nonzero_T (\<lambda>t p. diff pianoroll t p > 0) (nrows pianoroll + 1) (ncols pianoroll);
          pitches = map fst positives;
          note_ons = map snd positives;
          note_offs =
            map snd
              (nonzero_T (\<lambda>t p. diff pianoroll t p < 0) (nrows pianoroll + 1) (ncols pianoroll))
      in case notes_loop pianoroll rescale note_ons note_offs (enumerate 0 pitches) [] of
           Inl e \<Rightarrow> Inl e
         | Inr notes \<Rightarrow> Inr (sort_key start notes))"

section \<open>Properties of the parser\<close>

declare decode.simps [simp del]
declare iter_all.simps [simp del]
declare pop_all.simps [simp del]

lemma decode_ready:
  "ready (tok p) = toks \<Longrightarrow>
   decode from_bytes p =
     (if list_all (\<lambda>tk. from_bytes tk \<noteq> None) toks
      then Inr \<lparr>messages = messages p @ map (\<lambda>tk. the (from_bytes tk)) toks,
                tok = (tok p)\<lparr>ready := []\<rparr>\<rparr>
      else Inl DecodeError)"
proof (induction toks arbitrary: p)
  case Nil
  then show ?case by (subst decode.simps) (simp add: tok_next_def)
next
  case (Cons tk toks)
  show ?case
  proof (cases "from_bytes tk")
    case None
    with Cons.prems show ?thesis by (subst decode.simps) (simp add: tok_next_def)
  next
    case (Some m)
    let ?p = "\<lparr>messages = messages p @ [m], tok = (tok p)\<lparr>ready := toks\<rparr>\<rparr>"
    have "decode from_bytes p = decode from_bytes ?p"
      using Cons.prems Some by (subst decode.simps) (simp add: tok_next_def)
    also have "\<dots> = (if list_all (\<lambda>tk. from_bytes tk \<noteq> None) toks
      then Inr \<lparr>messages = messages ?p @ map (\<lambda>tk. the (from_bytes tk)) toks,
                tok = (tok ?p)\<lparr>ready := []\<rparr>\<rparr>
      else Inl DecodeError)"
      by (rule Cons.IH) simp
    finally show ?thesis using Some by simp
  qed
qed

lemma feed_eq:
  "feed from_bytes data_len p data =
     (case tok_feed data_len (tok p) data of
        Inl e \<Rightarrow> Inl e
      | Inr t' \<Rightarrow>
          if list_all (\<lambda>tk. from_bytes tk \<noteq> None) (ready t')
          then Inr \<lparr>messages = messages p @ map (\<lambda>tk. the (from_bytes tk)) (ready t'),
                    tok = t'\<lparr>ready := []\<rparr>\<rparr>
          else Inl DecodeError)"
  by (simp add: feed_def decode_ready [OF refl] split: sum.splits)

lemma feed_byte_feed:
  "feed_byte from_bytes data_len p byte = feed from_bytes data_len p [byte]"
  by (simp add: feed_byte_def feed_def tok_feed_byte_def)

lemma process_byte_ready:
  "process_byte dl (t\<lparr>ready := r\<rparr>) b =
     (process_byte dl (t\<lparr>ready := []\<rparr>) b)
       \<lparr>ready := r @ ready (process_byte dl (t\<lparr>ready := []\<rparr>) b)\<rparr>"
  by (simp add: process_byte_def Let_def split: option.splits prod.splits)

lemma foldl_process_ready:
  "foldl (process_byte dl) (t\<lparr>ready := r\<rparr>) bs =
     (foldl (process_byte dl) (t\<lparr>ready := []\<rparr>) bs)
       \<lparr>ready := r @ ready (foldl (process_byte dl) (t\<lparr>ready := []\<rparr>) bs)\<rparr>"
proof (induction bs arbitrary: t r)
  case Nil
  show ?case by simp
next
  case (Cons b bs)
  let ?u = "process_byte dl (t\<lparr>ready := []\<rparr>) b"
  let ?v = "foldl (process_byte dl) (?u\<lparr>ready := []\<rparr>) bs"
  have "foldl (process_byte dl) (t\<lparr>ready := r\<rparr>) (b # bs)
        = foldl (process_byte dl) (?u\<lparr>ready := r @ ready ?u\<rparr>) bs"
    by (simp add: process_byte_ready [where t = t and r = r])
  also have "\<dots> = ?v\<lparr>ready := (r @ ready ?u) @ ready ?v\<rparr>"
    by (rule Cons.IH)
  finally have a: "foldl (process_byte dl) (t\<lparr>ready := r\<rparr>) (b # bs) =
      ?v\<lparr>ready := (r @ ready ?u) @ ready ?v\<rparr>" .
  have "foldl (process_byte dl) (t\<lparr>ready := []\<rparr>) (b # bs)
        = foldl (process_byte dl) (?u\<lparr>ready := [] @ ready ?u\<rparr>) bs"
    by simp
  also have "\<dots> = ?v\<lparr>ready := ([] @ ready ?u) @ ready ?v\<rparr>"
    by (rule Cons.IH)
  finally have b: "foldl (process_byte dl) (t\<lparr>ready := []\<rparr>) (b # bs) =
      ?v\<lparr>ready := ready ?u @ ready ?v\<rparr>"
    by simp
  show ?case unfolding a b by simp
qed

lemma feed_Cons:
  assumes "list_all valid_byte (b # bs)"
  shows "feed fb dl p (b # bs) =
     (case feed fb dl p [b] of Inl e \<Rightarrow> Inl e | Inr p' \<Rightarrow> feed fb dl p' bs)"
proof -
  let ?t1 = "process_byte dl (tok p) b"
  have r: "foldl (process_byte dl) ?t1 bs =
     (foldl (process_byte dl) (?t1\<lparr>ready := []\<rparr>) bs)
       \<lparr>ready := ready ?t1 @ ready (foldl (process_byte dl) (?t1\<lparr>ready := []\<rparr>) bs)\<rparr>"
    using foldl_process_ready [where t = ?t1 and r = "ready ?t1" and bs = bs and dl = dl]
    by simp
  show ?thesis
    using assms
    by (subst r | simp add: feed_eq tok_feed_def)+
qed

lemma feed_bytes_feed:
  "list_all valid_byte bs \<Longrightarrow> ready (tok p) = [] \<Longrightarrow>
   feed_bytes fb dl p bs = feed fb dl p bs"
proof (induction bs arbitrary: p)
  case Nil
  then show ?case by (cases p) (simp add: feed_eq tok_feed_def)
next
  case (Cons b bs)
  have v: "list_all valid_byte bs" using Cons.prems(1) by simp
  have "feed_bytes fb dl p (b # bs) =
      (case feed fb dl p [b] of Inl e \<Rightarrow> Inl e | Inr p' \<Rightarrow> feed_bytes fb dl p' bs)"
    by (simp add: feed_byte_feed)
  also have "\<dots> = (case feed fb dl p [b] of Inl e \<Rightarrow> Inl e | Inr p' \<Rightarrow> feed fb dl p' bs)"
  proof (cases "feed fb dl p [b]")
    case (Inl e)
    then show ?thesis by simp
  next
    case (Inr p')
    then have "ready (tok p') = []"
      by (auto simp: feed_eq split: sum.splits if_splits)
    then show ?thesis using Inr Cons.IH [OF v] by simp
  qed
  also have "\<dots> = feed fb dl p (b # bs)"
    using feed_Cons [OF Cons.prems(1)] by (rule sym)
  finally show ?case .
qed

text \<open>
  The framing model on the examples of section 8 of the specification: running status,
  a sysex message that spans two calls, and orphan data bytes.
\<close>

lemma tokenizer_example_running_status:
  "tok_feed [0x90 \<mapsto> 2] Tokenizer [0x90, 60, 127, 61, 127]
     = Inr (Tokenizer\<lparr>running_status := Some 0x90,
                         ready := [[0x90, 60, 127], [0x90, 61, 127]]\<rparr>)"
  by (simp add: tok_feed_def valid_byte_def process_byte_def expected_len_def Tokenizer_def)

lemma tokenizer_example_sysex_spans_calls:
  "tok_feed dl Tokenizer [0xF0, 1, 2] = Inr (Tokenizer\<lparr>sysex_buf := Some [0xF0, 1, 2]\<rparr>)
   \<and> tok_feed dl (Tokenizer\<lparr>sysex_buf := Some [0xF0, 1, 2]\<rparr>) [3, 0xF7]
     = Inr (Tokenizer\<lparr>ready := [[0xF0, 1, 2, 3, 0xF7]]\<rparr>)"
  by (simp add: tok_feed_def valid_byte_def process_byte_def Tokenizer_def)

lemma tokenizer_example_orphan_data:
  "tok_feed dl Tokenizer [60, 127] = Inr Tokenizer"
  by (simp add: tok_feed_def valid_byte_def process_byte_def Tokenizer_def)

lemma get_message_eq:
  "get_message p =
     (case messages p of [] \<Rightarrow> (None, p) | m # ms \<Rightarrow> (Some m, p\<lparr>messages := ms\<rparr>))"
  by (simp add: get_message_def iter_next_def split: list.splits)

lemma iter_all_eq: "iter_all p = (messages p, p\<lparr>messages := []\<rparr>)"
proof (induction "messages p" arbitrary: p)
  case Nil
  then show ?case by (subst iter_all.simps) (simp add: iter_next_def)
next
  case (Cons m ms)
  from Cons(2) have eq: "messages p = m # ms" by simp
  have "iter_all (p\<lparr>messages := ms\<rparr>) = (ms, p\<lparr>messages := []\<rparr>)"
    using Cons(1)[of "p\<lparr>messages := ms\<rparr>"] by simp
  then show ?case using eq by (subst iter_all.simps) (simp add: iter_next_def)
qed

lemma pop_all_eq: "pop_all p = (messages p, p\<lparr>messages := []\<rparr>)"
proof (induction "messages p" arbitrary: p)
  case Nil
  then show ?case by (subst pop_all.simps) (simp add: get_message_eq)
next
  case (Cons m ms)
  from Cons(2) have eq: "messages p = m # ms" by simp
  have "pop_all (p\<lparr>messages := ms\<rparr>) = (ms, p\<lparr>messages := []\<rparr>)"
    using Cons(1)[of "p\<lparr>messages := ms\<rparr>"] by simp
  then show ?case using eq by (subst pop_all.simps) (simp add: get_message_eq)
qed

lemma Parser_feed:
  "Parser fb dl (Some data) = feed fb dl \<lparr>messages = [], tok = Tokenizer\<rparr> data"
proof (cases "data = []")
  case True
  then show ?thesis by (simp add: Parser_def feed_eq tok_feed_def Tokenizer_def)
next
  case False
  then show ?thesis by (simp add: Parser_def)
qed

text \<open>
  Claim C1. \<^verbatim>\<open>Parser.feed\<close> and \<^verbatim>\<open>Parser.feed_byte\<close> hand the bytes to the owned
  tokenizer and then drain it: when the tokenizer accepts the bytes and ends in state
  \<open>t'\<close>, every token of its ready list is decoded into one message, the messages are
  appended to the queue in the order of the ready list (the order in which the tokens
  were framed), and the ready list is left empty; a token that \<^verbatim>\<open>from_bytes\<close> rejects
  makes the call raise DecodeError, and an error of the tokenizer is passed on.
\<close>

theorem feed_drains_and_decodes_in_order:
  "feed from_bytes data_len p data =
     (case tok_feed data_len (tok p) data of
        Inl e \<Rightarrow> Inl e
      | Inr t' \<Rightarrow>
          if list_all (\<lambda>tk. from_bytes tk \<noteq> None) (ready t')
          then Inr \<lparr>messages = messages p @ map (\<lambda>tk. the (from_bytes tk)) (ready t'),
                    tok = t'\<lparr>ready := []\<rparr>\<rparr>
          else Inl DecodeError)
   \<and> feed_byte from_bytes data_len p byte =
     (case tok_feed_byte data_len (tok p) byte of
        Inl e \<Rightarrow> Inl e
      | Inr t' \<Rightarrow>
          if list_all (\<lambda>tk. from_bytes tk \<noteq> None) (ready t')
          then Inr \<lparr>messages = messages p @ map (\<lambda>tk. the (from_bytes tk)) (ready t'),
                    tok = t'\<lparr>ready := []\<rparr>\<rparr>
          else Inl DecodeError)"
  by (simp add: feed_eq feed_byte_feed tok_feed_byte_def)

theorem feed_drains_and_decodes_in_order_witness:
  "feed Some [0x90 \<mapsto> 2] \<lparr>messages = [[0xF6]], tok = Tokenizer\<rparr> [0x90, 60, 127, 0xF8, 61, 1]
     = Inr \<lparr>messages = [[0xF6], [0x90, 60, 127], [0xF8], [0x90, 61, 1]],
             tok = Tokenizer\<lparr>running_status := Some 0x90\<rparr>\<rparr>
   \<and> feed_byte Some [0x90 \<mapsto> 2] \<lparr>messages = [[0xF6]], tok = Tokenizer\<rparr> 0xFA
     = Inr \<lparr>messages = [[0xF6], [0xFA]], tok = Tokenizer\<rparr>"
  using feed_drains_and_decodes_in_order
    [of Some "[0x90 \<mapsto> 2]" "\<lparr>messages = [[0xF6]], tok = Tokenizer\<rparr>"
        "[0x90, 60, 127, 0xF8, 61, 1]" "0xFA"]
  by (simp add: tok_feed_def tok_feed_byte_def valid_byte_def process_byte_def
      expected_len_def Tokenizer_def)

text \<open>
  Claim C2. With a table that gives the status byte 0x90 two data bytes, feeding
  \<open>[0x90, 0xF8, 60, 127]\<close> to a fresh parser yields exactly two messages: first the
  decoding of the one-byte realtime token \<open>[0xF8]\<close>, then the decoding of the complete
  note-on token \<open>[0x90, 60, 127]\<close>, whose data bytes are those fed around the
  interruption.
\<close>

theorem realtime_interleaving:
  "data_len 0x90 = Some 2 \<Longrightarrow> from_bytes [0xF8] = Some clock \<Longrightarrow>
   from_bytes [0x90, 60, 127] = Some note_on \<Longrightarrow>
   feed from_bytes data_len \<lparr>messages = [], tok = Tokenizer\<rparr> [0x90, 0xF8, 60, 127]
     = Inr \<lparr>messages = [clock, note_on], tok = Tokenizer\<lparr>running_status := Some 0x90\<rparr>\<rparr>
   \<and> parse_all from_bytes data_len [0x90, 0xF8, 60, 127] = Inr [clock, note_on]"
  by (simp add: parse_all_def Parser_feed iter_all_eq feed_eq tok_feed_def valid_byte_def
      process_byte_def expected_len_def Tokenizer_def)

theorem realtime_interleaving_witness:
  "parse_all Some [0x90 \<mapsto> 2] [0x90, 0xF8, 60, 127] = Inr [[0xF8], [0x90, 60, 127]]"
  using realtime_interleaving [of "[0x90 \<mapsto> 2]" Some "[0xF8]" "[0x90, 60, 127]"]
  by simp

text \<open>
  Claim C3. For every sequence of bytes (integers in 0..255) and every parser whose
  tokenizer holds no undrained token (as after construction and after every call that
  returned), feeding the bytes one at a time with \<^verbatim>\<open>feed_byte\<close> ends in the same parser,
  with the same messages in the same order, or raises the same error, as one call of
  \<^verbatim>\<open>feed\<close> with the whole sequence; and \<^verbatim>\<open>feed_byte(b)\<close> is \<^verbatim>\<open>feed([b])\<close>.
\<close>

theorem feed_byte_by_byte_equals_feed:
  "list_all valid_byte bytes \<Longrightarrow> ready (tok p) = [] \<Longrightarrow>
   feed_bytes from_bytes data_len p bytes = feed from_bytes data_len p bytes
   \<and> feed_byte from_bytes data_len p byte = feed from_bytes data_len p [byte]"
  by (simp add: feed_bytes_feed feed_byte_feed)

theorem feed_byte_by_byte_equals_feed_witness:
  "feed_bytes Some [0x90 \<mapsto> 2] \<lparr>messages = [], tok = Tokenizer\<rparr> [0x90, 0xF8, 60, 127, 61]
     = Inr \<lparr>messages = [[0xF8], [0x90, 60, 127]],
             tok = Tokenizer\<lparr>running_status := Some 0x90, in_progress := Some (0x90, [61])\<rparr>\<rparr>"
proof -
  have v: "list_all valid_byte [0x90, 0xF8, 60, 127, 61]"
    by (simp add: valid_byte_def)
  have r: "ready (tok \<lparr>messages = ([] :: int list list), tok = Tokenizer\<rparr>) = []"
    by (simp add: Tokenizer_def)
  show ?thesis
    using feed_byte_by_byte_equals_feed [OF v r, of Some "[0x90 \<mapsto> 2]" 0]
    by (simp add: feed_eq tok_feed_def valid_byte_def process_byte_def expected_len_def
        Tokenizer_def)
qed

text \<open>
  Claim C4. \<^verbatim>\<open>get_message\<close> removes and returns the first (oldest) queued message when
  the queue is not empty; on an empty queue it returns \<^verbatim>\<open>None\<close>, raises nothing and
  leaves the parser as it was.
\<close>

theorem get_message_pops_front_or_none:
  "get_message p =
     (case messages p of
        [] \<Rightarrow> (None, p)
      | m # ms \<Rightarrow> (Some m, p\<lparr>messages := ms\<rparr>))"
  by (rule get_message_eq)

theorem get_message_pops_front_or_none_witness:
  "get_message \<lparr>messages = [1, 2, 3 :: nat], tok = Tokenizer\<rparr>
     = (Some 1, \<lparr>messages = [2, 3], tok = Tokenizer\<rparr>)
   \<and> get_message \<lparr>messages = ([] :: nat list), tok = Tokenizer\<rparr>
     = (None, \<lparr>messages = [], tok = Tokenizer\<rparr>)"
  using get_message_pops_front_or_none [of "\<lparr>messages = [1, 2, 3 :: nat], tok = Tokenizer\<rparr>"]
    get_message_pops_front_or_none [of "\<lparr>messages = ([] :: nat list), tok = Tokenizer\<rparr>"]
  by simp

text \<open>
  Claim C5. Iterating a parser yields its queued messages in queue order, each once, and
  is the same as calling \<^verbatim>\<open>get_message\<close> until it returns \<^verbatim>\<open>None\<close>; after the
  iteration the queue is empty, \<^verbatim>\<open>pending()\<close> returns 0, and one more pop returns
  \<^verbatim>\<open>None\<close> without an error and without a change; \<^verbatim>\<open>pending()\<close> returns the length of
  the queue and leaves the parser as it was.
\<close>

theorem iterate_is_fifo_drain:
  "iter_all p = (messages p, p\<lparr>messages := []\<rparr>)
   \<and> iter_all p = pop_all p
   \<and> pending (snd (iter_all p)) = (0, snd (iter_all p))
   \<and> get_message (snd (iter_all p)) = (None, snd (iter_all p))
   \<and> pending p = (length (messages p), p)"
  by (simp add: iter_all_eq pop_all_eq pending_def get_message_eq)

theorem iterate_is_fifo_drain_witness:
  "iter_all \<lparr>messages = [1, 2, 3 :: nat], tok = Tokenizer\<rparr>
     = ([1, 2, 3], \<lparr>messages = [], tok = Tokenizer\<rparr>)
   \<and> pop_all \<lparr>messages = [1, 2, 3 :: nat], tok = Tokenizer\<rparr>
     = ([1, 2, 3], \<lparr>messages = [], tok = Tokenizer\<rparr>)
   \<and> pending \<lparr>messages = [1, 2, 3 :: nat], tok = Tokenizer\<rparr>
     = (3, \<lparr>messages = [1, 2, 3], tok = Tokenizer\<rparr>)"
proof -
  let ?p = "\<lparr>messages = [1, 2, 3 :: nat], tok = Tokenizer\<rparr>"
  note t = iterate_is_fifo_drain [of ?p]
  have a: "iter_all ?p = (messages ?p, ?p\<lparr>messages := []\<rparr>)"
    using t by (rule conjunct1)
  have b: "iter_all ?p = pop_all ?p"
    using t by (rule conjunct1 [OF conjunct2])
  have c: "pending ?p = (length (messages ?p), ?p)"
    using t by (rule conjunct2 [OF conjunct2 [OF conjunct2 [OF conjunct2]]])
  show ?thesis
    unfolding b [symmetric] a c by simp
qed

text \<open>
  Claim C6. \<^verbatim>\<open>parse_all(data)\<close> feeds the whole buffer to a fresh parser and returns all
  messages of its queue, in order, leaving the queue empty; an error of the feed is
  raised. For a buffer of bytes the result is the decoding, in order, of the tokens
  the fresh tokenizer frames from the buffer; a buffer from which no token is framed
  gives the empty list.
\<close>

theorem parse_all_returns_all_messages:
  "parse_all from_bytes data_len data =
     (case feed from_bytes data_len \<lparr>messages = [], tok = Tokenizer\<rparr> data of
        Inl e \<Rightarrow> Inl e
      | Inr p \<Rightarrow> Inr (messages p))
   \<and> (\<forall>p. feed from_bytes data_len \<lparr>messages = [], tok = Tokenizer\<rparr> data = Inr p \<longrightarrow>
          messages (snd (iter_all p)) = [])
   \<and> (list_all valid_byte data \<longrightarrow>
        parse_all from_bytes data_len data =
          (let toks = ready (foldl (process_byte data_len) Tokenizer data) in
           if list_all (\<lambda>tk. from_bytes tk \<noteq> None) toks
           then Inr (map (\<lambda>tk. the (from_bytes tk)) toks)
           else Inl DecodeError))
   \<and> (list_all valid_byte data \<and> ready (foldl (process_byte data_len) Tokenizer data) = [] \<longrightarrow>
        parse_all from_bytes data_len data = Inr [])"
  by (simp add: parse_all_def Parser_feed iter_all_eq feed_eq tok_feed_def Let_def
      split: sum.splits)

theorem parse_all_returns_all_messages_witness:
  "parse_all Some [0x90 \<mapsto> 2] [0x90, 60, 127, 61, 127] = Inr [[0x90, 60, 127], [0x90, 61, 127]]
   \<and> parse_all Some [0x90 \<mapsto> 2] [60, 127] = Inr []"
proof -
  have v1: "list_all valid_byte [0x90, 60, 127, 61, 127]"
    by (simp add: valid_byte_def)
  have v2: "list_all valid_byte [60, 127]"
    by (simp add: valid_byte_def)
  have r2: "ready (foldl (process_byte [0x90 \<mapsto> 2]) Tokenizer [60, 127]) = []"
    by (simp add: process_byte_def Tokenizer_def)
  show ?thesis
    using parse_all_returns_all_messages [of Some "[0x90 \<mapsto> 2]" "[0x90, 60, 127, 61, 127]"]
      parse_all_returns_all_messages [of Some "[0x90 \<mapsto> 2]" "[60, 127]"] v1 v2 r2
    by (simp add: feed_eq tok_feed_def valid_byte_def process_byte_def expected_len_def
        Tokenizer_def)
qed

text \<open>
  Claim C7. \<^verbatim>\<open>parse(data)\<close> feeds the whole buffer to a fresh parser and returns the
  first message of its queue only, or \<^verbatim>\<open>None\<close> when the queue is empty; an error of the
  feed is raised. The parser, with the messages left in its queue, is not returned.
\<close>

theorem parse_returns_first_message:
  "parse from_bytes data_len data =
     (case feed from_bytes data_len \<lparr>messages = [], tok = Tokenizer\<rparr> data of
        Inl e \<Rightarrow> Inl e
      | Inr p \<Rightarrow> Inr (case messages p of [] \<Rightarrow> None | m # ms \<Rightarrow> Some m))
   \<and> (list_all valid_byte data \<longrightarrow>
        parse from_bytes data_len data =
          (let toks = ready (foldl (process_byte data_len) Tokenizer data) in
           if list_all (\<lambda>tk. from_bytes tk \<noteq> None) toks
           then Inr (case toks of [] \<Rightarrow> None | tk # rest \<Rightarrow> from_bytes tk)
           else Inl DecodeError))"
  by (auto simp add: parse_def Parser_feed get_message_eq feed_eq tok_feed_def Let_def
      split: sum.splits list.splits)

theorem parse_returns_first_message_witness:
  "parse Some [0x90 \<mapsto> 2] [0x90, 60, 127, 61, 127] = Inr (Some [0x90, 60, 127])
   \<and> parse Some [0x90 \<mapsto> 2] [60, 127] = Inr None"
proof -
  have v1: "list_all valid_byte [0x90, 60, 127, 61, 127]"
    by (simp add: valid_byte_def)
  have v2: "list_all valid_byte [60, 127]"
    by (simp add: valid_byte_def)
  show ?thesis
    using parse_returns_first_message [of Some "[0x90 \<mapsto> 2]" "[0x90, 60, 127, 61, 127]"]
      parse_returns_first_message [of Some "[0x90 \<mapsto> 2]" "[60, 127]"] v1 v2
    by (simp add: feed_eq tok_feed_def valid_byte_def process_byte_def expected_len_def
        Tokenizer_def)
qed

section \<open>Properties of the pianoroll conversions\<close>

subsection \<open>The store below the copies\<close>

lemma deepcopy_refs_frame:
  "n \<le> length h \<Longrightarrow> \<forall>(a, b) \<in> set memo. n \<le> b \<Longrightarrow>
   deepcopy_refs memo h rs = (h', rs') \<Longrightarrow>
   take n h' = take n h \<and> n \<le> length h' \<and> (\<forall>r \<in> set rs'. n \<le> r)"
proof (induction rs arbitrary: memo h h' rs')
  case Nil
  then show ?case by simp
next
  case (Cons r rs)
  show ?case
  proof (cases "map_of memo r")
    case (Some r')
    obtain h1 rs1 where d: "deepcopy_refs memo h rs = (h1, rs1)"
      by (cases "deepcopy_refs memo h rs")
    from Cons.prems(3) Some d have e: "h' = h1" "rs' = r' # rs1"
      by simp_all
    have "(r, r') \<in> set memo"
      using Some by (rule map_of_SomeD)
    with Cons.prems(2) have "n \<le> r'"
      by auto
    with Cons.IH [OF Cons.prems(1) Cons.prems(2) d] e show ?thesis
      by simp
  next
    case None
    obtain h1 rs1 where
      d: "deepcopy_refs ((r, length h) # memo) (h @ [h ! r]) rs = (h1, rs1)"
      by (cases "deepcopy_refs ((r, length h) # memo) (h @ [h ! r]) rs")
    from Cons.prems(3) None d have e: "h' = h1" "rs' = length h # rs1"
      by (simp_all add: Let_def)
    have a: "n \<le> length (h @ [h ! r])"
      using Cons.prems(1) by simp
    have b: "\<forall>(a, b) \<in> set ((r, length h) # memo). n \<le> b"
      using Cons.prems(1) Cons.prems(2) by simp
    from Cons.IH [OF a b d] e Cons.prems(1) show ?thesis
      by simp
  qed
qed

lemma deepcopy_frame:
  "deepcopy h rs = (h', rs') \<Longrightarrow>
   take (length h) h' = h \<and> length h \<le> length h' \<and> (\<forall>r \<in> set rs'. length h \<le> r)"
  using deepcopy_refs_frame [of "length h" h "[]" rs h' rs']
  by (simp add: deepcopy_def)

lemma resample_notes_frame:
  "\<forall>r \<in> set rs. n \<le> r \<Longrightarrow> take n (fst (resample_notes f h rs)) = take n h"
proof (induction rs arbitrary: h)
  case Nil
  show ?case by simp
next
  case (Cons r rs)
  then have n: "n \<le> r" and rest: "\<forall>r \<in> set rs. n \<le> r"
    by simp_all
  show ?case
    using n Cons.IH [OF rest]
    by (simp add: Let_def split: option.splits)
qed

lemma take_update_above:
  "n \<le> r \<Longrightarrow> take n (h[r := x]) = take n h"
  by simp

lemma fill_note_frame:
  "n \<le> r \<Longrightarrow> take n (fst (fill_note keep_note binary_thres h r c)) = take n h"
  by (simp add: fill_note_def Let_def)

lemma fill_coo_frame:
  "\<forall>r \<in> set rs. n \<le> r \<Longrightarrow> take n (fst (fill_coo keep_note binary_thres h rs c)) = take n h"
proof (induction rs arbitrary: h c)
  case Nil
  show ?case by simp
next
  case (Cons r rs)
  then have n: "n \<le> r" and rest: "\<forall>r \<in> set rs. n \<le> r"
    by simp_all
  obtain h1 c1 where s: "fill_note keep_note binary_thres h r c = (h1, c1)"
    by (cases "fill_note keep_note binary_thres h r c")
  have "take n h1 = take n h"
    using fill_note_frame [OF n, of keep_note binary_thres h c] s by simp
  with Cons.IH [OF rest, of h1 c1] s show ?case
    by simp
qed

lemma prepare_frame:
  "prepare h ori resample max_tick = (h1, res) \<Longrightarrow>
   take (length h) h1 = h
   \<and> (\<forall>ns mt. res = Inr (ns, mt) \<longrightarrow> (\<forall>r \<in> set ns. length h \<le> r))"
proof -
  assume p: "prepare h ori resample max_tick = (h1, res)"
  obtain h0 rs0 where d: "deepcopy h ori = (h0, rs0)"
    by (cases "deepcopy h ori")
  let ?ns = "sort_key (\<lambda>r. end_tick (h0 ! r)) rs0"
  from deepcopy_frame [OF d] have t0: "take (length h) h0 = h"
    and ge: "\<forall>r \<in> set ?ns. length h \<le> r"
    by simp_all
  have t1: "take (length h) (fst (resample_notes f h0 ?ns)) = h" for f
    using resample_notes_frame [OF ge, of f h0] t0 by simp
  show ?thesis
  proof (cases resample)
    case None
    with p d t0 ge show ?thesis
      by (auto simp: prepare_def Let_def)
  next
    case (Some f)
    obtain h2 e where r: "resample_notes f h0 ?ns = (h2, e)"
      by (cases "resample_notes f h0 ?ns")
    with t1 [of f] have t2: "take (length h) h2 = h"
      by simp
    from p d Some r t0 t2 ge show ?thesis
      by (auto simp: prepare_def Let_def split: option.splits)
  qed
qed

subsection \<open>Notes of velocity zero\<close>

lemma nth_update_velocity:
  "velocity ((h[r := (h ! r)\<lparr>end_tick := e\<rparr>]) ! a) = velocity (h ! a)"
proof (cases "r < length h")
  case True
  then show ?thesis by (simp add: nth_list_update)
next
  case False
  then have "h[r := (h ! r)\<lparr>end_tick := e\<rparr>] = h"
    by (simp add: list_update_beyond)
  then show ?thesis by simp
qed

lemma fill_note_velocity:
  "velocity (fst (fill_note keep_note binary_thres h r c) ! a) = velocity (h ! a)"
  by (simp add: fill_note_def Let_def nth_update_velocity)

lemma fill_note_zero:
  "velocity (h ! r) = 0 \<Longrightarrow> fill_note keep_note binary_thres h r c = (h, c)"
  by (simp add: fill_note_def)

lemma fill_coo_skip_zero:
  "fill_coo keep_note binary_thres h (filter (\<lambda>r. velocity (h ! r) \<noteq> 0) rs) c
     = fill_coo keep_note binary_thres h rs c"
proof (induction rs arbitrary: h c)
  case Nil
  show ?case by simp
next
  case (Cons r rs)
  show ?case
  proof (cases "velocity (h ! r) = 0")
    case True
    then show ?thesis using Cons.IH [of h c] by (simp add: fill_note_zero)
  next
    case False
    obtain h1 c1 where s: "fill_note keep_note binary_thres h r c = (h1, c1)"
      by (cases "fill_note keep_note binary_thres h r c")
    have "velocity (h1 ! a) = velocity (h ! a)" for a
      using fill_note_velocity [of keep_note binary_thres h r c a] s by simp
    then have f: "filter (\<lambda>a. velocity (h ! a) \<noteq> 0) rs = filter (\<lambda>a. velocity (h1 ! a) \<noteq> 0) rs"
      by simp
    show ?thesis
      using False s Cons.IH [of h1 c1] by (simp add: f)
  qed
qed

lemma fill_note_no_zero_entry:
  "IntVal 0 \<notin> set (velocity_coo c) \<Longrightarrow>
   IntVal 0 \<notin> set (velocity_coo (snd (fill_note keep_note None h r c)))"
  by (auto simp: fill_note_def Let_def nth_update_velocity)

lemma fill_coo_no_zero_entry:
  "IntVal 0 \<notin> set (velocity_coo c) \<Longrightarrow>
   IntVal 0 \<notin> set (velocity_coo (snd (fill_coo keep_note None h rs c)))"
proof (induction rs arbitrary: h c)
  case Nil
  then show ?case by simp
next
  case (Cons r rs)
  obtain h1 c1 where s: "fill_note keep_note None h r c = (h1, c1)"
    by (cases "fill_note keep_note None h r c")
  have "IntVal 0 \<notin> set (velocity_coo c1)"
    using fill_note_no_zero_entry [OF Cons.prems, of keep_note h r] s by simp
  from Cons.IH [OF this, of h1] s show ?case
    by simp
qed

text \<open>
  Claim C8. \<^verbatim>\<open>notes2pianoroll\<close> never changes an object that existed before the call:
  whatever the stream and the parameters, and whether the call returns or raises, the
  store after the call begins with the store before it, so every note of
  \<^verbatim>\<open>note_stream_ori\<close> keeps its start, end, pitch and velocity. Resampling and the
  extension of zero-length notes assign to the copies only.
\<close>

theorem notes2pianoroll_keeps_input:
  "take (length h)
     (fst (notes2pianoroll h note_stream_ori resample binary_thres max_tick to_sparse keep_note))
     = h
   \<and> (\<forall>r \<in> set note_stream_ori. r < length h \<longrightarrow>
        fst (notes2pianoroll h note_stream_ori resample binary_thres max_tick to_sparse keep_note) ! r
          = h ! r)"
proof -
  let ?h' = "fst (notes2pianoroll h note_stream_ori resample binary_thres max_tick
                    to_sparse keep_note)"
  obtain h1 res where p: "prepare h note_stream_ori resample max_tick = (h1, res)"
    by (cases "prepare h note_stream_ori resample max_tick")
  note f = prepare_frame [OF p]
  have t: "take (length h) ?h' = h"
  proof (cases res)
    case (Inl e)
    with p f show ?thesis
      by (simp add: notes2pianoroll_def)
  next
    case (Inr x)
    obtain ns mt where x: "x = (ns, mt)"
      by (cases x)
    with Inr f have ge: "\<forall>r \<in> set ns. length h \<le> r"
      by simp
    have "take (length h) (fst (fill_coo keep_note binary_thres h1 ns c)) = h" for c
      using fill_coo_frame [OF ge, of keep_note binary_thres h1 c] f by simp
    with p Inr x show ?thesis
      by (simp add: notes2pianoroll_def split_beta)
  qed
  have "?h' ! r = h ! r" if "r < length h" for r
  proof -
    have "take (length h) ?h' ! r = ?h' ! r"
      using that by simp
    with t show ?thesis
      by simp
  qed
  with t show ?thesis
    by simp
qed

theorem notes2pianoroll_keeps_input_witness:
  "fst (notes2pianoroll
         [\<lparr>start = 1, end_tick = 1, pitch = 60, velocity = 100\<rparr>,
          \<lparr>start = 0, end_tick = 1, pitch = 61, velocity = 0\<rparr>]
         [0, 1] (Some (\<lambda>x. Some (2 * x))) None None True True)
     = [\<lparr>start = 1, end_tick = 1, pitch = 60, velocity = 100\<rparr>,
        \<lparr>start = 0, end_tick = 1, pitch = 61, velocity = 0\<rparr>,
        \<lparr>start = 2, end_tick = 3, pitch = 60, velocity = 100\<rparr>,
        \<lparr>start = 0, end_tick = 2, pitch = 61, velocity = 0\<rparr>]
   \<and> take 2 (fst (notes2pianoroll
         [\<lparr>start = 1, end_tick = 1, pitch = 60, velocity = 100\<rparr>,
          \<lparr>start = 0, end_tick = 1, pitch = 61, velocity = 0\<rparr>]
         [0, 1] (Some (\<lambda>x. Some (2 * x))) None None True True))
     = [\<lparr>start = 1, end_tick = 1, pitch = 60, velocity = 100\<rparr>,
        \<lparr>start = 0, end_tick = 1, pitch = 61, velocity = 0\<rparr>]"
  using notes2pianoroll_keeps_input
    [of "[\<lparr>start = 1, end_tick = 1, pitch = 60, velocity = 100\<rparr>,
          \<lparr>start = 0, end_tick = 1, pitch = 61, velocity = 0\<rparr>]"
        "[0, 1]" "Some (\<lambda>x. Some (2 * x))" None None True True]
  by (simp add: notes2pianoroll_def prepare_def deepcopy_def fill_note_def Let_def)

text \<open>
  Claim C9. A note whose velocity is 0 contributes nothing to the pianoroll: the loop
  body leaves the coordinate lists (and the store) as they are for such a note, so for
  every stream and every setting of the parameters the result of \<^verbatim>\<open>notes2pianoroll\<close>
  is the one built from the prepared notes of non-zero velocity alone; and without
  \<^verbatim>\<open>binary_thres\<close> no recorded entry has the value 0.
\<close>

theorem zero_velocity_notes_contribute_nothing:
  "(velocity (h ! r) = 0 \<longrightarrow> fill_note keep_note binary_thres h r c = (h, c))
   \<and> notes2pianoroll h note_stream_ori resample binary_thres max_tick to_sparse keep_note =
     (case prepare h note_stream_ori resample max_tick of
        (h1, Inl e) \<Rightarrow> (h1, Inl e)
      | (h1, Inr (note_stream, max_tick)) \<Rightarrow>
          (let (h2, c) = fill_coo keep_note binary_thres h1
                           (filter (\<lambda>r. velocity (h1 ! r) \<noteq> 0) note_stream)
                           \<lparr>time_coo = [], pitch_coo = [], velocity_coo = []\<rparr>
           in (h2, to_pianoroll binary_thres to_sparse c max_tick)))
   \<and> (\<forall>h' m. notes2pianoroll h note_stream_ori resample None max_tick True keep_note
                = (h', Inr (Sparse m)) \<longrightarrow>
        IntVal 0 \<notin> set (velocity_coo (entries m)))"
proof -
  have a: "velocity (h ! r) = 0 \<longrightarrow> fill_note keep_note binary_thres h r c = (h, c)"
    by (simp add: fill_note_zero)
  have b: "notes2pianoroll h note_stream_ori resample binary_thres max_tick to_sparse keep_note =
     (case prepare h note_stream_ori resample max_tick of
        (h1, Inl e) \<Rightarrow> (h1, Inl e)
      | (h1, Inr (note_stream, max_tick)) \<Rightarrow>
          (let (h2, c) = fill_coo keep_note binary_thres h1
                           (filter (\<lambda>r. velocity (h1 ! r) \<noteq> 0) note_stream)
                           \<lparr>time_coo = [], pitch_coo = [], velocity_coo = []\<rparr>
           in (h2, to_pianoroll binary_thres to_sparse c max_tick)))"
    by (simp add: notes2pianoroll_def fill_coo_skip_zero split: prod.splits sum.splits)
  have c: "IntVal 0 \<notin> set (velocity_coo (entries m))"
    if r: "notes2pianoroll h note_stream_ori resample None max_tick True keep_note
             = (h', Inr (Sparse m))" for h' m
  proof -
    obtain h1 res where p: "prepare h note_stream_ori resample max_tick = (h1, res)"
      by (cases "prepare h note_stream_ori resample max_tick")
    with r obtain ns mt where res: "res = Inr (ns, mt)"
      by (cases res) (auto simp: notes2pianoroll_def)
    let ?c = "snd (fill_coo keep_note None h1 ns
                \<lparr>time_coo = [], pitch_coo = [], velocity_coo = []\<rparr>)"
    have "to_pianoroll None True ?c mt = Inr (Sparse m)"
      using r p res by (simp add: notes2pianoroll_def split_beta)
    then have "entries m = ?c"
      by (auto simp: to_pianoroll_def csc_matrix_def split: if_splits sum.splits)
    moreover have "IntVal 0 \<notin> set (velocity_coo ?c)"
      by (rule fill_coo_no_zero_entry) simp
    ultimately show ?thesis
      by simp
  qed
  from a b c show ?thesis
    by blast
qed

theorem zero_velocity_notes_contribute_nothing_witness:
  "notes2pianoroll
     [\<lparr>start = 0, end_tick = 2, pitch = 61, velocity = 0\<rparr>,
      \<lparr>start = 1, end_tick = 3, pitch = 60, velocity = 100\<rparr>]
     [0, 1] None None None True True
   = ([\<lparr>start = 0, end_tick = 2, pitch = 61, velocity = 0\<rparr>,
       \<lparr>start = 1, end_tick = 3, pitch = 60, velocity = 100\<rparr>,
       \<lparr>start = 0, end_tick = 2, pitch = 61, velocity = 0\<rparr>,
       \<lparr>start = 1, end_tick = 3, pitch = 60, velocity = 100\<rparr>],
      Inr (Sparse \<lparr>shape = (3, 128),
                   entries = \<lparr>time_coo = [1, 2], pitch_coo = [60, 60],
                              velocity_coo = [IntVal 100, IntVal 100]\<rparr>\<rparr>))"
  using zero_velocity_notes_contribute_nothing
    [of "[\<lparr>start = 0, end_tick = 2, pitch = 61, velocity = 0\<rparr>,
          \<lparr>start = 1, end_tick = 3, pitch = 60, velocity = 100\<rparr>]" 0 True None
        "\<lparr>time_coo = [], pitch_coo = [], velocity_coo = []\<rparr>" "[0, 1]" None None True]
  by (simp add: prepare_def deepcopy_def fill_note_def to_pianoroll_def csc_matrix_def
      PITCH_RANGE_def Let_def upto.simps numeral_2_eq_2)

subsection \<open>Notes read from a pianoroll\<close>

lemma py_int_clamped:
  "0 \<le> py_int (max 0 (min 127 v)) \<and> py_int (max 0 (min 127 v)) \<le> 127"
proof -
  let ?q = "max 0 (min 127 v)"
  have q: "0 \<le> ?q" "?q \<le> 127"
    by simp_all
  have "\<lfloor>?q\<rfloor> \<le> \<lfloor>127 :: rat\<rfloor>"
    using q(2) by (rule floor_mono)
  then have "\<lfloor>?q\<rfloor> \<le> 127"
    by simp
  moreover have "0 \<le> \<lfloor>?q\<rfloor>"
    using q(1) by simp
  ultimately show ?thesis
    using q(1) by (simp add: py_int_def)
qed

lemma notes_loop_velocity:
  "\<forall>n \<in> set acc. 0 \<le> velocity n \<and> velocity n \<le> 127 \<Longrightarrow>
   notes_loop pianoroll rescale note_ons note_offs es acc = Inr notes \<Longrightarrow>
   \<forall>n \<in> set notes. 0 \<le> velocity n \<and> velocity n \<le> 127"
proof (induction es arbitrary: acc)
  case Nil
  then show ?case by simp
next
  case (Cons e es)
  obtain idx pit where e: "e = (idx, pit)"
    by (cases e)
  let ?vel = "py_int (max 0 (min 127 (cell pianoroll (note_ons ! idx) pit)))"
  from Cons.prems(2) e obtain s t where
    r: "notes_loop pianoroll rescale note_ons note_offs es
          (acc @ [\<lparr>start = s, end_tick = t, pitch = int pit, velocity = ?vel\<rparr>]) = Inr notes"
    by (auto simp: Let_def split: if_splits option.splits)
  have "\<forall>n \<in> set (acc @ [\<lparr>start = s, end_tick = t, pitch = int pit, velocity = ?vel\<rparr>]).
          0 \<le> velocity n \<and> velocity n \<le> 127"
    using Cons.prems(1) py_int_clamped [of "cell pianoroll (note_ons ! idx) pit"] by simp
  from Cons.IH [OF this r] show ?case .
qed

lemma notes_loop_total:
  "\<forall>x. rescale x \<noteq> None \<Longrightarrow>
   \<forall>(idx, pit) \<in> set es. idx < length note_ons \<and> idx < length note_offs
       \<and> note_ons ! idx < nrows pianoroll \<and> pit < ncols pianoroll \<Longrightarrow>
   \<exists>notes. notes_loop pianoroll rescale note_ons note_offs es acc = Inr notes"
proof (induction es arbitrary: acc)
  case Nil
  show ?case by simp
next
  case (Cons e es)
  obtain idx pit where e: "e = (idx, pit)"
    by (cases e)
  obtain s where s: "rescale (note_ons ! idx) = Some s"
    using Cons.prems(1) by (metis not_None_eq)
  obtain t where t: "rescale (note_offs ! idx) = Some t"
    using Cons.prems(1) by (metis not_None_eq)
  have rest: "\<forall>(idx, pit) \<in> set es. idx < length note_ons \<and> idx < length note_offs
       \<and> note_ons ! idx < nrows pianoroll \<and> pit < ncols pianoroll"
    using Cons.prems(2) by simp
  have here: "idx < length note_ons \<and> idx < length note_offs
       \<and> note_ons ! idx < nrows pianoroll \<and> pit < ncols pianoroll"
    using Cons.prems(2) e by simp
  show ?case
    using Cons.IH [OF Cons.prems(1) rest] here e s t
    by (simp add: Let_def)
qed

text \<open>Rising and falling edges of a column: as many of the one as of the other.\<close>

lemma edges_sum:
  "\<forall>t < n. d t = -1 \<or> d t = 0 \<or> d t = (1 :: int) \<Longrightarrow>
   (\<Sum>t < n. d t) =
     int (length (filter (\<lambda>t. d t > 0) [0..<n])) - int (length (filter (\<lambda>t. d t < 0) [0..<n]))"
proof (induction n)
  case 0
  show ?case by simp
next
  case (Suc n)
  then have "\<forall>t < n. d t = -1 \<or> d t = 0 \<or> d t = 1" and "d n = -1 \<or> d n = 0 \<or> d n = 1"
    by simp_all
  with Suc.IH show ?case
    by auto
qed

lemma diff_telescope:
  "(\<Sum>t < n. diff pianoroll t p) = of_bool (padded pianoroll n p) - of_bool (padded pianoroll 0 p)"
  by (induction n) (simp_all add: diff_def)

lemma column_edges:
  "length (filter (\<lambda>t. diff pianoroll t p > 0) [0..<nrows pianoroll + 1])
     = length (filter (\<lambda>t. diff pianoroll t p < 0) [0..<nrows pianoroll + 1])"
proof -
  let ?n = "nrows pianoroll + 1"
  have "\<forall>t < ?n. diff pianoroll t p = -1 \<or> diff pianoroll t p = 0 \<or> diff pianoroll t p = 1"
    by (simp add: diff_def)
  from edges_sum [OF this] have
    "(\<Sum>t < ?n. diff pianoroll t p) =
       int (length (filter (\<lambda>t. diff pianoroll t p > 0) [0..<?n]))
       - int (length (filter (\<lambda>t. diff pianoroll t p < 0) [0..<?n]))" .
  moreover have "(\<Sum>t < ?n. diff pianoroll t p) = 0"
    by (simp only: diff_telescope) (simp add: padded_def)
  ultimately show ?thesis
    by simp
qed

lemma length_nonzero_T:
  "length (nonzero_T m rows cols)
     = sum_list (map (\<lambda>p. length (filter (\<lambda>t. m t p) [0..<rows])) [0..<cols])"
  by (simp add: nonzero_T_def length_concat comp_def)

lemma ons_offs_length:
  "length (nonzero_T (\<lambda>t p. diff pianoroll t p > 0) (nrows pianoroll + 1) (ncols pianoroll))
     = length (nonzero_T (\<lambda>t p. diff pianoroll t p < 0) (nrows pianoroll + 1) (ncols pianoroll))"
  unfolding length_nonzero_T using column_edges [of pianoroll] by simp

lemma onset_in_range:
  "(p, t) \<in> set (nonzero_T (\<lambda>t p. diff pianoroll t p > 0) (nrows pianoroll + 1) (ncols pianoroll))
   \<Longrightarrow> p < ncols pianoroll \<and> t < nrows pianoroll"
proof -
  assume "(p, t) \<in> set (nonzero_T (\<lambda>t p. diff pianoroll t p > 0)
                          (nrows pianoroll + 1) (ncols pianoroll))"
  then have p: "p < ncols pianoroll" and t: "t < nrows pianoroll + 1"
    and d: "diff pianoroll t p > 0"
    by (auto simp: nonzero_T_def simp del: upt_Suc)
  have "t \<noteq> nrows pianoroll"
    using d by (auto simp: diff_def padded_def split: if_splits)
  with p t show ?thesis
    by simp
qed

text \<open>
  Claim C10. Whenever \<^verbatim>\<open>pianoroll2notes\<close> returns, every note of the returned list has
  an integer velocity in the range 0..127 and the list is in non-decreasing order of the
  notes' start times, for every pianoroll and every resample factor; and it does return
  whenever the conversions \<^verbatim>\<open>int(st*resample_factor)\<close> and \<^verbatim>\<open>int(ed*resample_factor)\<close>
  do not raise (no index leaves its array).
\<close>

theorem pianoroll2notes_velocity_clamped_and_sorted:
  "(\<forall>notes. pianoroll2notes pianoroll rescale = Inr notes \<longrightarrow>
      (\<forall>n \<in> set notes. 0 \<le> velocity n \<and> velocity n \<le> 127) \<and> sorted (map start notes))
   \<and> ((\<forall>x. rescale x \<noteq> None) \<longrightarrow> (\<exists>notes. pianoroll2notes pianoroll rescale = Inr notes))"
proof -
  let ?pos = "nonzero_T (\<lambda>t p. diff pianoroll t p > 0) (nrows pianoroll + 1) (ncols pianoroll)"
  let ?neg = "nonzero_T (\<lambda>t p. diff pianoroll t p < 0) (nrows pianoroll + 1) (ncols pianoroll)"
  let ?loop = "notes_loop pianoroll rescale (map snd ?pos) (map snd ?neg)
                 (enumerate 0 (map fst ?pos)) []"
  have def: "pianoroll2notes pianoroll rescale =
      (case ?loop of Inl e \<Rightarrow> Inl e | Inr notes \<Rightarrow> Inr (sort_key start notes))"
    by (simp add: pianoroll2notes_def Let_def)
  have a: "(\<forall>n \<in> set res. 0 \<le> velocity n \<and> velocity n \<le> 127) \<and> sorted (map start res)"
    if r: "pianoroll2notes pianoroll rescale = Inr res" for res
  proof -
    from r def obtain ns where l: "?loop = Inr ns" and s: "res = sort_key start ns"
      by (cases ?loop) auto
    have "\<forall>n \<in> set ns. 0 \<le> velocity n \<and> velocity n \<le> 127"
      by (rule notes_loop_velocity [OF _ l]) simp
    with s show ?thesis
      by simp
  qed
  have b: "\<exists>notes. pianoroll2notes pianoroll rescale = Inr notes"
    if t: "\<forall>x. rescale x \<noteq> None"
  proof -
    have "\<forall>(idx, pit) \<in> set (enumerate 0 (map fst ?pos)).
            idx < length (map snd ?pos) \<and> idx < length (map snd ?neg)
            \<and> map snd ?pos ! idx < nrows pianoroll \<and> pit < ncols pianoroll"
    proof (clarify)
      fix idx pit
      assume "(idx, pit) \<in> set (enumerate 0 (map fst ?pos))"
      then have i: "idx < length ?pos" and p: "pit = fst (?pos ! idx)"
        by (auto simp: in_set_enumerate_eq)
      from i have "?pos ! idx \<in> set ?pos"
        by simp
      then have "(fst (?pos ! idx), snd (?pos ! idx)) \<in> set ?pos"
        by simp
      from onset_in_range [OF this] i p ons_offs_length [of pianoroll]
      show "idx < length (map snd ?pos) \<and> idx < length (map snd ?neg)
            \<and> map snd ?pos ! idx < nrows pianoroll \<and> pit < ncols pianoroll"
        by simp
    qed
    from notes_loop_total [OF t this, of "[]"] obtain ns where "?loop = Inr ns" ..
    with def show ?thesis
      by simp
  qed
  from a b show ?thesis
    by blast
qed

theorem pianoroll2notes_velocity_clamped_and_sorted_witness:
  "pianoroll2notes
     \<lparr>nrows = 3, ncols = 2,
      cell = (\<lambda>t p. if p = 1 \<and> t < 2 then 300 else if p = 0 \<and> t = 1 then 1 / 2 else 0)\<rparr>
     (\<lambda>x. Some (int x))
   = Inr [\<lparr>start = 0, end_tick = 2, pitch = 1, velocity = 127\<rparr>,
          \<lparr>start = 1, end_tick = 2, pitch = 0, velocity = 0\<rparr>]
   \<and> sorted (map start [\<lparr>start = 0, end_tick = 2, pitch = 1, velocity = 127\<rparr>,
                         \<lparr>start = 1, end_tick = 2, pitch = 0, velocity = 0\<rparr>])
   \<and> list_all (\<lambda>n. 0 \<le> velocity n \<and> velocity n \<le> 127)
        [\<lparr>start = 0, end_tick = 2, pitch = 1, velocity = 127\<rparr>,
         \<lparr>start = 1, end_tick = 2, pitch = 0, velocity = 0\<rparr>]"
proof -
  let ?pr = "\<lparr>nrows = 3, ncols = 2,
      cell = (\<lambda>t p. if p = (1 :: nat) \<and> t < (2 :: nat) then 300
                     else if p = 0 \<and> t = 1 then 1 / 2 else (0 :: rat))\<rparr>"
  let ?ns = "[\<lparr>start = 0, end_tick = 2, pitch = 1, velocity = 127\<rparr>,
              \<lparr>start = 1, end_tick = 2, pitch = 0, velocity = 0\<rparr>]"
  have e: "pianoroll2notes ?pr (\<lambda>x. Some (int x)) = Inr ?ns"
    by code_simp
  from pianoroll2notes_velocity_clamped_and_sorted [of ?pr "\<lambda>x. Some (int x)"] e
  have "(\<forall>n \<in> set ?ns. 0 \<le> velocity n \<and> velocity n \<le> 127) \<and> sorted (map start ?ns)"
    by blast
  with e show ?thesis
    by (simp only: list_all_iff) simp
qed

end
